theory Spec2Isabelle
  imports Main "HOL-Library.Sublist"
begin

section \<open>Pattern matching: \<open>EventEmitter._matches\<close>\<close>

text \<open>
  Event names and patterns are JavaScript strings; a string is modelled as a list of
  characters. \<open>s.split('.')\<close> cuts at every dot and always returns at least one
  segment: \<open>''''\<close> gives one empty segment, \<open>''a.''\<close> gives \<open>''a''\<close> and an empty one.
\<close>

fun split_dot :: "string \<Rightarrow> string list" where
  "split_dot [] = [[]]"
| "split_dot (c # cs) =
     (if c = CHR ''.'' then [] # split_dot cs
      else (case split_dot cs of
              [] \<Rightarrow> [[c]]
            | seg # segs \<Rightarrow> (c # seg) # segs))"

text \<open>
  Reading an array beyond its end gives \<open>undefined\<close> in JavaScript; \<open>None\<close> stands
  for it.
\<close>

definition at_index :: "'a list \<Rightarrow> nat \<Rightarrow> 'a option" where
  "at_index xs i = (if i < length xs then Some (xs ! i) else None)"

text \<open>
  The \<open>for\<close> loop of \<open>_matches\<close>, with the loop counter as argument. The comparison
  \<open>patternParts[i] !== eventParts[i]\<close> is between a string and a string or
  \<open>undefined\<close>.
\<close>

function matches_loop :: "string list \<Rightarrow> string list \<Rightarrow> nat \<Rightarrow> bool" where
  "matches_loop patternParts eventParts i =
     (if i < length patternParts then
        (if patternParts ! i = ''**'' then True
         else if patternParts ! i = ''*'' then matches_loop patternParts eventParts (Suc i)
         else if Some (patternParts ! i) \<noteq> at_index eventParts i then False
         else matches_loop patternParts eventParts (Suc i))
      else length patternParts = length eventParts)"
  by pat_completeness auto
termination
  by (relation "measure (\<lambda>(patternParts, eventParts, i). length patternParts - i)") auto

definition matches :: "string \<Rightarrow> string \<Rightarrow> bool" where
  "matches pattern event =
     (if pattern = event \<or> pattern = ''*'' then True
      else matches_loop (split_dot pattern) (split_dot event) 0)"

text \<open>
  The matcher as section 4.1 of the specification words it: the two strings are split,
  the pattern segments are walked from the left with their position, and when they are
  used up the two segment counts are compared.
\<close>

fun spec_walk :: "nat \<Rightarrow> string list \<Rightarrow> string list \<Rightarrow> nat \<Rightarrow> bool" where
  "spec_walk n [] es i = (n = length es)"
| "spec_walk n (p # ps) es i =
     (if p = ''**'' then True
      else if p = ''*'' then spec_walk n ps es (Suc i)
      else if i < length es \<and> es ! i = p then spec_walk n ps es (Suc i)
      else False)"

definition spec_matches :: "string \<Rightarrow> string \<Rightarrow> bool" where
  "spec_matches P E =
     (P = E \<or> P = ''*'' \<or>
      spec_walk (length (split_dot P)) (split_dot P) (split_dot E) 0)"

section \<open>Values, listeners and the emitter\<close>

text \<open>
  The JavaScript values that the registry can hold and that the operations tell apart:
  \<^item> \<open>Undefined\<close>: \<open>undefined\<close>, also an omitted argument. It is falsy, it is not
    callable, and reading a property of it throws a \<open>TypeError\<close>.
  \<^item> \<open>Obj k\<close>: a truthy value that is not callable (an object, a number, a non-empty
    string) and has no \<open>_original\<close> property; \<open>k\<close> is its identity.
  \<^item> \<open>Fn k\<close>: a function of the caller, with identity \<open>k\<close> and no \<open>_original\<close>
    property. What it does when called is given by a program, below.
  \<^item> \<open>Wrapper r event callback\<close>: the arrow function that \<open>once\<close> creates. It closes
    over \<open>event\<close> and \<open>callback\<close>, its \<open>_original\<close> property is \<open>callback\<close>, and
    \<open>r\<close> is the number of the allocation, so two wrappers made by two calls of
    \<open>once\<close> differ.
  \<open>===\<close> on these values is equality of the terms.
\<close>

datatype jsval =
    Undefined
  | Obj nat
  | Fn nat
  | Wrapper nat string jsval

datatype error = TypeError | Thrown nat

text \<open>The two kinds of message that reach the console.\<close>

datatype msg =
    Warning string nat nat
  | ListenerError string error

text \<open>
  The body of a caller's function is a sequence of statements: it may use the emitter
  it was registered on, and it may throw. \<open>program\<close> gives every function its body.
\<close>

datatype stmt =
    Emit string "jsval list"
  | On string jsval
  | Once string jsval
  | Off string jsval
  | Throw nat

type_synonym program = "nat \<Rightarrow> stmt list"

text \<open>
  A JavaScript \<open>Map\<close> keeps its entries in insertion order. Deleting a key empties its
  entry and leaves the place in the sequence; setting a key that is absent appends an
  entry. An iteration that is under way therefore skips what was deleted ahead of it and
  reaches what was appended. \<open>None\<close> is an emptied entry.
\<close>

type_synonym ('k, 'v) jsmap = "('k \<times> 'v) option list"

fun map_get :: "('k, 'v) jsmap \<Rightarrow> 'k \<Rightarrow> 'v option" where
  "map_get [] k = None"
| "map_get (None # es) k = map_get es k"
| "map_get (Some (k', v) # es) k = (if k' = k then Some v else map_get es k)"

definition map_has :: "('k, 'v) jsmap \<Rightarrow> 'k \<Rightarrow> bool" where
  "map_has m k = (map_get m k \<noteq> None)"

text \<open>
  \<open>map_put\<close> is \<open>Map.set\<close>; it is also how a change of the array stored under a key
  is written, since the array is shared with the map.
\<close>

fun map_put :: "('k, 'v) jsmap \<Rightarrow> 'k \<Rightarrow> 'v \<Rightarrow> ('k, 'v) jsmap" where
  "map_put [] k v = [Some (k, v)]"
| "map_put (None # es) k v = None # map_put es k v"
| "map_put (Some (k', v') # es) k v =
     (if k' = k then Some (k, v) # es else Some (k', v') # map_put es k v)"

fun map_delete :: "('k, 'v) jsmap \<Rightarrow> 'k \<Rightarrow> ('k, 'v) jsmap" where
  "map_delete [] k = []"
| "map_delete (None # es) k = None # map_delete es k"
| "map_delete (Some (k', v) # es) k =
     (if k' = k then None # es else Some (k', v) # map_delete es k)"

text \<open>
  The emitter (\<open>listeners\<close>, \<open>maxListeners\<close>) together with the part of its
  environment that the operations touch: the counter from which wrappers get their
  identity, the console, the record of every call of a caller's function with its
  arguments, and the record of every error at the moment it is thrown.
\<close>

record world =
  listeners :: "(string, jsval list) jsmap"
  maxListeners :: nat
  next_ref :: nat
  console :: "msg list"
  calls :: "(nat \<times> jsval list) list"
  raised :: "error list"

definition new_world :: world where
  "new_world =
     \<lparr>listeners = [], maxListeners = 10, next_ref = 0, console = [], calls = [], raised = []\<rparr>"

text \<open>The function that \<open>on\<close> returns closes over \<open>event\<close> and \<open>callback\<close>.\<close>

type_synonym token = "string \<times> jsval"

definition on :: "string \<Rightarrow> jsval \<Rightarrow> world \<Rightarrow> world \<times> token" where
  "on event callback w =
     (let m = (if \<not> map_has (listeners w) event then map_put (listeners w) event []
               else listeners w);
          ls = (case map_get m event of Some l \<Rightarrow> l | None \<Rightarrow> []);
          w1 = (if length ls \<ge> maxListeners w
                then w\<lparr>console := console w @ [Warning event (length ls) (maxListeners w)]\<rparr>
                else w)
      in (w1\<lparr>listeners := map_put m event (ls @ [callback])\<rparr>, (event, callback)))"

text \<open>\<open>fn._original\<close>, which throws when \<open>fn\<close> is \<open>undefined\<close>.\<close>

fun original :: "jsval \<Rightarrow> error + jsval" where
  "original Undefined = Inl TypeError"
| "original (Obj k) = Inr Undefined"
| "original (Fn k) = Inr Undefined"
| "original (Wrapper r event callback) = Inr callback"

text \<open>\<open>listeners.findIndex(...)\<close>; \<open>None\<close> is the result \<open>-1\<close>.\<close>

fun findIndex :: "jsval \<Rightarrow> jsval list \<Rightarrow> error + nat option" where
  "findIndex callback [] = Inr None"
| "findIndex callback (fn # fns) =
     (if fn = callback then Inr (Some 0)
      else (case original fn of
              Inl e \<Rightarrow> Inl e
            | Inr orig \<Rightarrow>
                if orig = callback then Inr (Some 0)
                else (case findIndex callback fns of
                        Inl e \<Rightarrow> Inl e
                      | Inr None \<Rightarrow> Inr None
                      | Inr (Some i) \<Rightarrow> Inr (Some (Suc i)))))"

text \<open>
  \<open>off\<close> throws only from \<open>findIndex\<close>, before it has changed anything, so an error
  needs no world beside it.
\<close>

definition off :: "string \<Rightarrow> jsval \<Rightarrow> world \<Rightarrow> error + world" where
  "off event callback w =
     (if callback = Undefined then Inr (w\<lparr>listeners := map_delete (listeners w) event\<rparr>)
      else (case map_get (listeners w) event of
              None \<Rightarrow> Inr w
            | Some ls \<Rightarrow>
                (case findIndex callback ls of
                   Inl e \<Rightarrow> Inl e
                 | Inr idx \<Rightarrow>
                     (let ls' = (case idx of
                                   None \<Rightarrow> ls
                                 | Some i \<Rightarrow> take i ls @ drop (Suc i) ls)
                      in if length ls' = 0
                         then Inr (w\<lparr>listeners := map_delete (listeners w) event\<rparr>)
                         else Inr (w\<lparr>listeners := map_put (listeners w) event ls'\<rparr>)))))"

definition call_token :: "token \<Rightarrow> world \<Rightarrow> error + world" where
  "call_token t w = off (fst t) (snd t) w"

definition once :: "string \<Rightarrow> jsval \<Rightarrow> world \<Rightarrow> world \<times> token" where
  "once event callback w =
     (let wrapper = Wrapper (next_ref w) event callback
      in on event wrapper (w\<lparr>next_ref := Suc (next_ref w)\<rparr>))"

text \<open>
  Calling a value, running a body, and \<open>emit\<close>. A listener may emit, so the four
  functions are mutually recursive and need not terminate; the first argument after the
  program bounds the depth of calls and the number of entries an \<open>emit\<close> visits, and
  \<open>None\<close> says that the bound was reached. A call ends normally or by throwing, and in
  both cases leaves a world: the outcome is \<open>(None, w)\<close> or \<open>(Some err, w)\<close>. An error
  is entered in \<open>raised\<close> where it is thrown: at a \<open>throw\<close> statement, at the call of a
  value that is not a function, at the \<open>TypeError\<close> of \<open>off\<close>.

  \<open>emit_from\<close> is the outer loop of \<open>emit\<close> from the entry with number \<open>i\<close> on,
  \<open>dispatch\<close> the inner loop over the copy \<open>[...listeners]\<close>.
\<close>

function (sequential) call :: "program \<Rightarrow> nat \<Rightarrow> jsval \<Rightarrow> jsval list \<Rightarrow> world \<Rightarrow> (error option \<times> world) option"
  and exec :: "program \<Rightarrow> nat \<Rightarrow> stmt list \<Rightarrow> world \<Rightarrow> (error option \<times> world) option"
  and emit_from :: "program \<Rightarrow> nat \<Rightarrow> nat \<Rightarrow> string \<Rightarrow> jsval list \<Rightarrow> bool \<Rightarrow> world \<Rightarrow> (bool \<times> world) option"
  and dispatch :: "program \<Rightarrow> nat \<Rightarrow> jsval list \<Rightarrow> string \<Rightarrow> jsval list \<Rightarrow> bool \<Rightarrow> world \<Rightarrow> (bool \<times> world) option"
where
  "call prog n f args w =
     (case n of
        0 \<Rightarrow> None
      | Suc m \<Rightarrow>
          (case f of
             Undefined \<Rightarrow> Some (Some TypeError, w\<lparr>raised := raised w @ [TypeError]\<rparr>)
           | Obj k \<Rightarrow> Some (Some TypeError, w\<lparr>raised := raised w @ [TypeError]\<rparr>)
           | Fn k \<Rightarrow> exec prog m (prog k) (w\<lparr>calls := calls w @ [(k, args)]\<rparr>)
           | Wrapper r event callback \<Rightarrow>
               (case off event f w of
                  Inl e \<Rightarrow> Some (Some e, w\<lparr>raised := raised w @ [e]\<rparr>)
                | Inr w' \<Rightarrow> call prog m callback args w')))"
| "exec prog n body w =
     (case body of
        [] \<Rightarrow> Some (None, w)
      | s # rest \<Rightarrow>
          (case s of
             Throw x \<Rightarrow> Some (Some (Thrown x), w\<lparr>raised := raised w @ [Thrown x]\<rparr>)
           | Emit event args \<Rightarrow>
               (case emit_from prog n 0 event args False w of
                  None \<Rightarrow> None
                | Some (called, w') \<Rightarrow> exec prog n rest w')
           | On event callback \<Rightarrow> exec prog n rest (fst (on event callback w))
           | Once event callback \<Rightarrow> exec prog n rest (fst (once event callback w))
           | Off event callback \<Rightarrow>
               (case off event callback w of
                  Inl e \<Rightarrow> Some (Some e, w\<lparr>raised := raised w @ [e]\<rparr>)
                | Inr w' \<Rightarrow> exec prog n rest w')))"
| "emit_from prog n i event args called w =
     (case n of
        0 \<Rightarrow> None
      | Suc m \<Rightarrow>
         (if i < length (listeners w) then
            (case listeners w ! i of
               None \<Rightarrow> emit_from prog m (Suc i) event args called w
             | Some (pattern, ls) \<Rightarrow>
                 if matches pattern event then
                   (case dispatch prog m ls event args called w of
                      None \<Rightarrow> None
                    | Some (called', w') \<Rightarrow> emit_from prog m (Suc i) event args called' w')
                 else emit_from prog m (Suc i) event args called w)
          else Some (called, w)))"
| "dispatch prog n snapshot event args called w =
     (case snapshot of
        [] \<Rightarrow> Some (called, w)
      | listener # rest \<Rightarrow>
         (case call prog n listener args w of
            None \<Rightarrow> None
          | Some (None, w') \<Rightarrow> dispatch prog n rest event args True w'
          | Some (Some err, w') \<Rightarrow>
              dispatch prog n rest event args called
                (w'\<lparr>console := console w' @ [ListenerError event err]\<rparr>)))"
  by pat_completeness auto
termination
  by (relation "inv_image (less_than <*lex*> less_than <*lex*> less_than)
        (\<lambda>x. case x of
           Inl (Inl (prog, n, f, args, w)) \<Rightarrow> (n, 0, 0)
         | Inl (Inr (prog, n, body, w)) \<Rightarrow> (n, 1, length body)
         | Inr (Inl (prog, n, i, event, args, called, w)) \<Rightarrow> (n, 0, 0)
         | Inr (Inr (prog, n, snapshot, event, args, called, w)) \<Rightarrow> (n, 1, length snapshot))")
     auto

definition emit :: "program \<Rightarrow> nat \<Rightarrow> string \<Rightarrow> jsval list \<Rightarrow> world \<Rightarrow> (bool \<times> world) option" where
  "emit prog n event args w = emit_from prog n 0 event args False w"

text \<open>
  \<open>listenerCount(event)\<close>: the test \<open>if (event)\<close> holds for a string that is not
  empty; it fails for an omitted argument and for the empty string.
\<close>

fun total_count :: "(string, jsval list) jsmap \<Rightarrow> nat" where
  "total_count [] = 0"
| "total_count (None # es) = total_count es"
| "total_count (Some (k, ls) # es) = length ls + total_count es"

definition listenerCount :: "string option \<Rightarrow> world \<Rightarrow> nat" where
  "listenerCount event w =
     (case event of
        None \<Rightarrow> total_count (listeners w)
      | Some e \<Rightarrow>
          if e \<noteq> []
          then length (case map_get (listeners w) e of Some ls \<Rightarrow> ls | None \<Rightarrow> [])
          else total_count (listeners w))"

section \<open>Rate limiters: \<open>debounce\<close> and \<open>throttle\<close>\<close>

text \<open>
  Time is the reading of \<open>Date.now()\<close> in whole milliseconds and is handed to the
  model by its caller; intervals are whole milliseconds too. A wrapper has at most one
  timeout pending, because every call clears the previous one before it may set a new
  one: \<open>timer\<close> holds the time at which the pending timeout is due and the arguments
  its callback has captured. \<open>applied\<close> records every execution of \<open>fn\<close>, with the
  time and the arguments. The parameter \<open>limit\<close> defaults to 100 and \<open>delay\<close> to 300
  when omitted.
\<close>

text \<open>
  The delay that \<open>setTimeout\<close> arms. A negative delay counts as 0, as the HTML
  standard has it (Node arms 1 millisecond for a delay below 1). The delay is kept in
  32 bits: a delay above \<open>2147483647\<close> does not fit, and Node arms 1 millisecond
  for it.
\<close>

definition timeout_delay :: "int \<Rightarrow> int" where
  "timeout_delay d = (if 2147483647 < d then 1 else max 0 d)"

record throttled =
  fn :: jsval
  limit :: int
  lastCall :: int
  timer :: "(int \<times> jsval list) option"
  applied :: "(int \<times> jsval list) list"

definition throttle :: "jsval \<Rightarrow> int \<Rightarrow> throttled" where
  "throttle f lim = \<lparr>fn = f, limit = lim, lastCall = 0, timer = None, applied = []\<rparr>"

text \<open>One call of the function that \<open>throttle\<close> returns, at time \<open>now\<close>.\<close>

definition throttled_call :: "int \<Rightarrow> jsval list \<Rightarrow> throttled \<Rightarrow> throttled" where
  "throttled_call now args t =
     (let remaining = limit t - (now - lastCall t);
          t1 = t\<lparr>timer := None\<rparr>
      in if remaining \<le> 0
         then t1\<lparr>lastCall := now, applied := applied t1 @ [(now, args)]\<rparr>
         else t1\<lparr>timer := Some (now + timeout_delay remaining, args)\<rparr>)"




record debounced =
  d_fn :: jsval
  d_delay :: int
  d_timer :: "(int \<times> jsval list) option"
  d_applied :: "(int \<times> jsval list) list"

definition debounce :: "jsval \<Rightarrow> int \<Rightarrow> debounced" where
  "debounce f delay = \<lparr>d_fn = f, d_delay = delay, d_timer = None, d_applied = []\<rparr>"

text \<open>One call of the function that \<open>debounce\<close> returns.\<close>

definition debounced_call :: "int \<Rightarrow> jsval list \<Rightarrow> debounced \<Rightarrow> debounced" where
  "debounced_call now args d = d\<lparr>d_timer := Some (now + timeout_delay (d_delay d), args)\<rparr>"

section \<open>Notions used to state the properties\<close>

text \<open>\<open>typeof v === 'function'\<close>.\<close>

fun callable :: "jsval \<Rightarrow> bool" where
  "callable Undefined = False"
| "callable (Obj k) = False"
| "callable (Fn k) = True"
| "callable (Wrapper r event callback) = True"

text \<open>The keys of a map, in the order of its entries; a \<open>Map\<close> holds a key once.\<close>

fun live_keys :: "('k, 'v) jsmap \<Rightarrow> 'k list" where
  "live_keys [] = []"
| "live_keys (None # es) = live_keys es"
| "live_keys (Some (k, v) # es) = k # live_keys es"

text \<open>The list stored under a pattern, empty when the pattern is not a key.\<close>

definition listeners_of :: "world \<Rightarrow> string \<Rightarrow> jsval list" where
  "listeners_of w event = (case map_get (listeners w) event of Some ls \<Rightarrow> ls | None \<Rightarrow> [])"

text \<open>
  The entries of a list that \<open>off\<close> takes for \<open>callback\<close>: the callback itself and
  the wrappers whose \<open>_original\<close> it is.
\<close>

definition hits :: "jsval \<Rightarrow> jsval list \<Rightarrow> jsval list" where
  "hits callback ls = filter (\<lambda>f. f = callback \<or> original f = Inr callback) ls"

text \<open>
  The numbers of the wrappers in a value, the wrapped ones included, are all below
  \<open>n\<close>. \<open>once\<close> gives the wrapper it creates the number \<open>next_ref\<close> and raises
  the counter, so the wrappers made before have numbers below it.
\<close>

fun refs_below :: "nat \<Rightarrow> jsval \<Rightarrow> bool" where
  "refs_below n (Wrapper r event callback) = (r < n \<and> refs_below n callback)"
| "refs_below n Undefined = True"
| "refs_below n (Obj k) = True"
| "refs_below n (Fn k) = True"

text \<open>All listeners of a registry, list after list.\<close>

fun all_listeners :: "(string, jsval list) jsmap \<Rightarrow> jsval list" where
  "all_listeners [] = []"
| "all_listeners (None # es) = all_listeners es"
| "all_listeners (Some (pattern, ls) # es) = ls @ all_listeners es"

text \<open>
  A world as the operations build it: every key is there once, and the wrappers in the
  registry have numbers below the counter.
\<close>

definition well_formed :: "world \<Rightarrow> bool" where
  "well_formed w =
     (distinct (live_keys (listeners w)) \<and>
      list_all (refs_below (next_ref w)) (all_listeners (listeners w)))"

text \<open>
  A program that registers no wrapper: \<open>once\<close> keeps the wrapper it creates to
  itself, so the code of a caller has none to pass on.
\<close>

fun registers_no_wrapper :: "stmt \<Rightarrow> bool" where
  "registers_no_wrapper (On event callback) = refs_below 0 callback"
| "registers_no_wrapper (Once event callback) = refs_below 0 callback"
| "registers_no_wrapper (Off event callback) = True"
| "registers_no_wrapper (Emit event args) = True"
| "registers_no_wrapper (Throw x) = True"

definition wrapper_free :: "program \<Rightarrow> bool" where
  "wrapper_free prog = (\<forall>k. list_all registers_no_wrapper (prog k))"

text \<open>The world after a token has been called, whether the call threw or not.\<close>

definition after_token :: "token \<Rightarrow> world \<Rightarrow> world" where
  "after_token t w = (case call_token t w of Inl e \<Rightarrow> w | Inr w' \<Rightarrow> w')"



fun body_ending :: "stmt list \<Rightarrow> error option" where
  "body_ending (Throw x # rest) = Some (Thrown x)"
| "body_ending body = None"

fun ending :: "program \<Rightarrow> jsval \<Rightarrow> error option" where
  "ending prog Undefined = Some TypeError"
| "ending prog (Obj k) = Some TypeError"
| "ending prog (Fn k) = body_ending (prog k)"
| "ending prog (Wrapper r event callback) = None"




text \<open>
  The listeners that an \<open>emit\<close> of \<open>event\<close> finds from a given sequence of entries,
  in the order of dispatch; the calls of functions among them; the reports for those
  that throw.
\<close>

fun matching :: "string \<Rightarrow> (string, jsval list) jsmap \<Rightarrow> jsval list" where
  "matching event [] = []"
| "matching event (None # es) = matching event es"
| "matching event (Some (pattern, ls) # es) =
     (if matches pattern event then ls else []) @ matching event es"

fun calls_of :: "jsval list \<Rightarrow> jsval list \<Rightarrow> (nat \<times> jsval list) list" where
  "calls_of args [] = []"
| "calls_of args (Fn k # vs) = (k, args) # calls_of args vs"
| "calls_of args (v # vs) = calls_of args vs"

fun reports_of :: "program \<Rightarrow> string \<Rightarrow> jsval list \<Rightarrow> msg list" where
  "reports_of prog event [] = []"
| "reports_of prog event (v # vs) =
     (case ending prog v of
        None \<Rightarrow> reports_of prog event vs
      | Some err \<Rightarrow> ListenerError event err # reports_of prog event vs)"

text \<open>
  The errors with which the calls of quiet listeners end, and the errors that the
  reports on a console are about, both in order.
\<close>

fun errors_of :: "program \<Rightarrow> jsval list \<Rightarrow> error list" where
  "errors_of prog [] = []"
| "errors_of prog (v # vs) =
     (case ending prog v of
        None \<Rightarrow> errors_of prog vs
      | Some err \<Rightarrow> err # errors_of prog vs)"

fun reported :: "msg list \<Rightarrow> error list" where
  "reported [] = []"
| "reported (Warning event n m # ms) = reported ms"
| "reported (ListenerError event err # ms) = err # reported ms"

text \<open>
  Between the worlds \<open>w\<close> and \<open>w'\<close> the errors are settled up to \<open>es\<close>: what has
  been thrown since \<open>w\<close> is what has been reported since \<open>w\<close>, in the same order,
  followed by \<open>es\<close>, the errors that are under way to their handler. Used in the
  proofs, for the error with which a call ends.
\<close>

definition settled :: "world \<Rightarrow> error list \<Rightarrow> world \<Rightarrow> bool" where
  "settled w es w' =
     (\<exists>new. raised w' = raised w @ new @ es \<and>
            reported (console w') = reported (console w) @ new)"


text \<open>
  The world after an \<open>emit\<close> of \<open>event\<close> with \<open>args\<close> has dispatched to the quiet
  listeners \<open>ls\<close>: the reports and the calls are entered, the errors are on record.
\<close>

definition after_quiet :: "program \<Rightarrow> string \<Rightarrow> jsval list \<Rightarrow> jsval list \<Rightarrow> world \<Rightarrow> world" where
  "after_quiet prog event args ls w =
     w\<lparr>console := console w @ reports_of prog event ls,
       calls := calls w @ calls_of args ls,
       raised := raised w @ errors_of prog ls\<rparr>"



text \<open>
  The functions of a list, by their numbers. One registry keeps the functions of
  another when, place by place, an entry with functions is still there under its
  pattern with these functions among its own, in their order. Used in the proofs.
\<close>

fun fns :: "jsval list \<Rightarrow> nat list" where
  "fns [] = []"
| "fns (Fn k # vs) = k # fns vs"
| "fns (v # vs) = fns vs"

fun kept :: "(string, jsval list) jsmap \<Rightarrow> (string, jsval list) jsmap \<Rightarrow> bool" where
  "kept [] m' = True"
| "kept (None # m) [] = kept m []"
| "kept (Some (p, ls) # m) [] = (fns ls = [] \<and> kept m [])"
| "kept (None # m) (y # m') = kept m m'"
| "kept (Some (p, ls) # m) (y # m') =
     ((fns ls = [] \<or>
       (case y of None \<Rightarrow> False | Some (q, ls') \<Rightarrow> q = p \<and> subseq (fns ls) (fns ls'))) \<and>
      kept m m')"

text \<open>
  From \<open>w\<close> to \<open>w'\<close> the calls \<open>xs\<close> have been served: the registry has kept its
  functions, and the calls recorded since \<open>w\<close> have \<open>xs\<close> among them, in their order.
  Used in the proofs.
\<close>

definition served :: "world \<Rightarrow> (nat \<times> jsval list) list \<Rightarrow> world \<Rightarrow> bool" where
  "served w xs w' =
     (kept (listeners w) (listeners w') \<and> (\<exists>cs. calls w' = calls w @ cs \<and> subseq xs cs))"

text \<open>
  From \<open>w\<close> to \<open>w'\<close> the registry has shrunk at most: it has as many entries, emptied
  ones included, and an \<open>emit\<close> of \<open>event\<close> finds no listener in \<open>w'\<close> that it does
  not find in \<open>w\<close>. Used in the proofs.
\<close>

definition shrunk :: "string \<Rightarrow> world \<Rightarrow> world \<Rightarrow> bool" where
  "shrunk event w w' =
     (length (listeners w') = length (listeners w) \<and>
      set (matching event (listeners w')) \<subseteq> set (matching event (listeners w)))"


definition alike :: "world \<Rightarrow> world \<Rightarrow> bool" where
  "alike w w' =
     (listeners w = listeners w' \<and> maxListeners w = maxListeners w' \<and>
      next_ref w = next_ref w' \<and> calls w = calls w')"

fun alike_result :: "('a \<times> world) option \<Rightarrow> ('b \<times> world) option \<Rightarrow> bool" where
  "alike_result None None = True"
| "alike_result (Some (a, w)) (Some (b, w')) = alike w w'"
| "alike_result None (Some y) = False"
| "alike_result (Some x) None = False"

section \<open>Programs for the concrete cases\<close>

text \<open>Every function throws the value 7 as soon as it is called.\<close>

definition always_throws :: program where
  "always_throws k = [Throw 7]"

text \<open>
  Function 0 throws, function 1 emits the event \<open>x\<close> from within itself, every other
  function returns at once.
\<close>

definition demo :: program where
  "demo k = (if k = 0 then [Throw 7] else if k = 1 then [Emit ''x'' []] else [])"


declare call.simps [simp del] exec.simps [simp del] emit_from.simps [simp del]
  dispatch.simps [simp del]

section \<open>The equations of the interpreter, case by case\<close>

lemma call_0 [simp]: "call prog 0 f args w = None"
  by (subst call.simps) simp

lemma call_Undefined [simp]:
  "call prog (Suc n) Undefined args w = Some (Some TypeError, w\<lparr>raised := raised w @ [TypeError]\<rparr>)"
  by (subst call.simps) simp

lemma call_Obj [simp]:
  "call prog (Suc n) (Obj k) args w = Some (Some TypeError, w\<lparr>raised := raised w @ [TypeError]\<rparr>)"
  by (subst call.simps) simp

lemma call_Fn [simp]:
  "call prog (Suc n) (Fn k) args w = exec prog n (prog k) (w\<lparr>calls := calls w @ [(k, args)]\<rparr>)"
  by (subst call.simps) simp

lemma call_Wrapper [simp]:
  "call prog (Suc n) (Wrapper r event callback) args w =
     (case off event (Wrapper r event callback) w of
        Inl e \<Rightarrow> Some (Some e, w\<lparr>raised := raised w @ [e]\<rparr>)
      | Inr w' \<Rightarrow> call prog n callback args w')"
  by (subst call.simps) simp

lemma exec_Nil [simp]: "exec prog n [] w = Some (None, w)"
  by (subst exec.simps) simp

lemma exec_Throw [simp]:
  "exec prog n (Throw x # rest) w = Some (Some (Thrown x), w\<lparr>raised := raised w @ [Thrown x]\<rparr>)"
  by (subst exec.simps) simp

lemma exec_Emit [simp]:
  "exec prog n (Emit event args # rest) w =
     (case emit_from prog n 0 event args False w of
        None \<Rightarrow> None
      | Some (called, w') \<Rightarrow> exec prog n rest w')"
  by (subst exec.simps) simp

lemma exec_On [simp]:
  "exec prog n (On event callback # rest) w = exec prog n rest (fst (on event callback w))"
  by (subst exec.simps) simp

lemma exec_Once [simp]:
  "exec prog n (Once event callback # rest) w = exec prog n rest (fst (once event callback w))"
  by (subst exec.simps) simp

lemma exec_Off [simp]:
  "exec prog n (Off event callback # rest) w =
     (case off event callback w of
        Inl e \<Rightarrow> Some (Some e, w\<lparr>raised := raised w @ [e]\<rparr>)
      | Inr w' \<Rightarrow> exec prog n rest w')"
  by (subst exec.simps) simp

lemma emit_from_0 [simp]: "emit_from prog 0 i event args called w = None"
  by (subst emit_from.simps) simp

lemma emit_from_Suc:
  "emit_from prog (Suc n) i event args called w =
     (if i < length (listeners w) then
        (case listeners w ! i of
           None \<Rightarrow> emit_from prog n (Suc i) event args called w
         | Some (pattern, ls) \<Rightarrow>
             if matches pattern event then
               (case dispatch prog n ls event args called w of
                  None \<Rightarrow> None
                | Some (called', w') \<Rightarrow> emit_from prog n (Suc i) event args called' w')
             else emit_from prog n (Suc i) event args called w)
      else Some (called, w))"
  by (subst emit_from.simps) simp

lemma dispatch_Nil [simp]: "dispatch prog n [] event args called w = Some (called, w)"
  by (subst dispatch.simps) simp

lemma dispatch_Cons [simp]:
  "dispatch prog n (listener # rest) event args called w =
     (case call prog n listener args w of
        None \<Rightarrow> None
      | Some (None, w') \<Rightarrow> dispatch prog n rest event args True w'
      | Some (Some err, w') \<Rightarrow>
          dispatch prog n rest event args called
            (w'\<lparr>console := console w' @ [ListenerError event err]\<rparr>))"
  by (subst dispatch.simps) simp

section \<open>Properties of the matcher\<close>

lemmas matches_loop_unfold = matches_loop.simps

declare matches_loop.simps [simp del]

lemma split_dot_nonempty: "split_dot s \<noteq> []"
  by (induction s) (auto split: list.splits)

lemma matches_loop_spec_walk:
  "i \<le> length pp \<Longrightarrow> matches_loop pp ep i = spec_walk (length pp) (drop i pp) ep i"
proof (induction pp ep i rule: matches_loop.induct)
  case (1 pp ep i)
  show ?case
  proof (cases "i < length pp")
    case True
    then have d: "drop i pp = pp ! i # drop (Suc i) pp"
      by (simp add: Cons_nth_drop_Suc)
    from True have le: "Suc i \<le> length pp" by simp
    show ?thesis
      using True "1.IH"(1) [OF True _ _ le] "1.IH"(2) [OF True _ _ _ le]
      by (subst matches_loop_unfold) (auto simp: d at_index_def)
  next
    case False
    with "1.prems" show ?thesis
      by (subst matches_loop_unfold) simp
  qed
qed

lemma matches_loop_no_doublestar:
  "''**'' \<notin> set pp \<Longrightarrow> matches_loop pp ep i \<Longrightarrow> length pp = length ep"
proof (induction pp ep i rule: matches_loop.induct)
  case (1 pp ep i)
  from "1.prems"(2) show ?case
    using "1.IH" "1.prems"(1)
    by (subst (asm) matches_loop_unfold) (auto split: if_splits dest: nth_mem)
qed

lemma matches_loop_reach_doublestar:
  "i \<le> k \<Longrightarrow> k < length pp \<Longrightarrow> pp ! k = ''**'' \<Longrightarrow>
   (\<forall>j. i \<le> j \<and> j < k \<longrightarrow> pp ! j = ''*'' \<or> (j < length ep \<and> pp ! j = ep ! j)) \<Longrightarrow>
   matches_loop pp ep i"
proof (induction "k - i" arbitrary: i)
  case 0
  then have "i = k" by simp
  with 0 show ?case by (subst matches_loop_unfold) simp
next
  case (Suc d)
  then have lt: "i < k" by simp
  have rec: "matches_loop pp ep (Suc i)"
    using Suc.hyps(1) [of "Suc i"] Suc.hyps(2) Suc.prems lt by auto
  have here: "pp ! i = ''*'' \<or> (i < length ep \<and> pp ! i = ep ! i)"
    using Suc.prems(4) lt by simp
  show ?case
    using rec here lt Suc.prems(2)
    by (subst matches_loop_unfold) (auto simp: at_index_def)
qed

lemma matches_eq_spec: "matches P E = spec_matches P E"
  using matches_loop_spec_walk [of 0 "split_dot P" "split_dot E"]
  by (simp add: matches_def spec_matches_def)

text \<open>
  Claim C3. The matcher decides exactly what the segment walk of section 4.1 of the
  specification decides, for every pattern and every event. A pattern with more segments
  than the event and without a \<open>**\<close> segment does not match, and \<open>a.*\<close> matches neither
  \<open>a\<close> nor \<open>a.b.c\<close>.
\<close>

theorem matcher_follows_segment_walk:
  "matches P E = spec_matches P E \<and>
   (length (split_dot E) < length (split_dot P) \<and> ''**'' \<notin> set (split_dot P)
      \<longrightarrow> \<not> matches P E) \<and>
   \<not> matches ''a.*'' ''a'' \<and> \<not> matches ''a.*'' ''a.b.c''"
proof -
  have more: "\<not> matches P E"
    if "length (split_dot E) < length (split_dot P)" "''**'' \<notin> set (split_dot P)"
  proof
    assume m: "matches P E"
    from that(1) have ne: "P \<noteq> E" by auto
    from that(1) split_dot_nonempty [of E] have "P \<noteq> ''*''"
      by (cases "split_dot E") auto
    with m ne have "matches_loop (split_dot P) (split_dot E) 0"
      by (simp add: matches_def)
    from matches_loop_no_doublestar [OF that(2) this] that(1) show False by simp
  qed
  have "\<not> matches ''a.*'' ''a''" "\<not> matches ''a.*'' ''a.b.c''"
    by (simp_all add: matches_def matches_loop_unfold at_index_def)
  with more matches_eq_spec show ?thesis by blast
qed

theorem matcher_follows_segment_walk_witness:
  "matches ''a.b'' ''a'' = spec_matches ''a.b'' ''a'' \<and>
   length (split_dot ''a'') < length (split_dot ''a.b'') \<and> ''**'' \<notin> set (split_dot ''a.b'') \<and>
   \<not> matches ''a.b'' ''a''"
proof -
  have h: "length (split_dot ''a'') < length (split_dot ''a.b'') \<and>
      ''**'' \<notin> set (split_dot ''a.b'')"
    by simp
  from matcher_follows_segment_walk [of "''a.b''" "''a''"] h show ?thesis
    by blast
qed

text \<open>
  Claim C10. A \<open>**\<close> segment is accepted even when the event has no segment left at
  its position: if every pattern segment before it is \<open>*\<close>, or equals the event's
  segment at the same position, the matcher says yes. So \<open>a.**\<close> matches \<open>a\<close>, and
  \<open>a.*.**\<close> matches \<open>a\<close> although its \<open>*\<close> stands past the end of the event.
  Only \<open>*\<close> may stand there: a literal segment needs the event's segment to equal, and
  \<open>a.b.**\<close> does not match \<open>a\<close>.
\<close>

theorem doublestar_matches_past_event_end:
  "(k < length (split_dot P) \<and> split_dot P ! k = ''**'' \<and>
    (\<forall>j < k. split_dot P ! j = ''*'' \<or>
              (j < length (split_dot E) \<and> split_dot P ! j = split_dot E ! j))
      \<longrightarrow> matches P E) \<and>
   matches ''a.**'' ''a'' \<and> matches ''a.*.**'' ''a'' \<and> \<not> matches ''a.b.**'' ''a''"
proof -
  have "matches P E"
    if "k < length (split_dot P)" "split_dot P ! k = ''**''"
      "\<forall>j < k. split_dot P ! j = ''*'' \<or>
              (j < length (split_dot E) \<and> split_dot P ! j = split_dot E ! j)"
    using matches_loop_reach_doublestar [of 0 k "split_dot P" "split_dot E"] that
    by (simp add: matches_def)
  moreover have "matches ''a.**'' ''a''" "matches ''a.*.**'' ''a''" "\<not> matches ''a.b.**'' ''a''"
    by (simp_all add: matches_def matches_loop_unfold at_index_def)
  ultimately show ?thesis by blast
qed

theorem doublestar_matches_past_event_end_witness:
  "2 < length (split_dot ''a.*.**'') \<and> split_dot ''a.*.**'' ! 2 = ''**'' \<and>
   length (split_dot ''a'') = 1 \<and> matches ''a.*.**'' ''a''"
  using doublestar_matches_past_event_end [of 2 "''a.*.**''" "''a''"]
  by (simp add: less_Suc_eq numeral_2_eq_2)

section \<open>The registry\<close>

lemma map_get_put_same [simp]: "map_get (map_put m k v) k = Some v"
  by (induction m k v rule: map_put.induct) auto

lemma map_get_put_other [simp]: "k' \<noteq> k \<Longrightarrow> map_get (map_put m k v) k' = map_get m k'"
  by (induction m k v rule: map_put.induct) auto

lemma map_put_put [simp]: "map_put (map_put m k v) k v' = map_put m k v'"
  by (induction m k v rule: map_put.induct) auto

lemma map_put_absent: "map_get m k = None \<Longrightarrow> map_put m k v = m @ [Some (k, v)]"
  by (induction m k v rule: map_put.induct) (auto split: if_splits)

lemma on_appends:
  "map_get (listeners (fst (on event callback w))) event =
     Some ((case map_get (listeners w) event of Some l \<Rightarrow> l | None \<Rightarrow> []) @ [callback])"
  by (auto simp: on_def Let_def map_has_def split: option.splits)

lemma on_console:
  "console (fst (on event callback w)) =
     console w @
       (let ls = (case map_get (listeners w) event of Some l \<Rightarrow> l | None \<Rightarrow> [])
        in if maxListeners w \<le> length ls then [Warning event (length ls) (maxListeners w)]
           else [])"
  by (auto simp: on_def Let_def map_has_def split: option.splits)

text \<open>
  Claim C6, as amended. \<open>on\<close> always appends the callback to the list of its pattern,
  and it writes a warning exactly when the list already held \<open>maxListeners\<close> entries or
  more before the append, that is when the list after the append is longer than
  \<open>maxListeners\<close>. The warning reports the length before the append.
\<close>

theorem on_warns_beyond_capacity:
  "map_get (listeners (fst (on event callback w))) event =
     Some ((case map_get (listeners w) event of Some l \<Rightarrow> l | None \<Rightarrow> []) @ [callback]) \<and>
   console (fst (on event callback w)) =
     console w @
       (if maxListeners w <
             length ((case map_get (listeners w) event of Some l \<Rightarrow> l | None \<Rightarrow> []) @ [callback])
        then [Warning event
                (length (case map_get (listeners w) event of Some l \<Rightarrow> l | None \<Rightarrow> []))
                (maxListeners w)]
        else [])"
  by (simp add: on_appends on_console Let_def less_Suc_eq_le)

theorem on_warns_beyond_capacity_witness:
  "map_get (listeners (fst (on ''x'' (Fn 1)
      (new_world\<lparr>listeners := [Some (''x'', replicate 10 (Fn 0))]\<rparr>)))) ''x'' =
     Some (replicate 10 (Fn 0) @ [Fn 1]) \<and>
   console (fst (on ''x'' (Fn 1)
      (new_world\<lparr>listeners := [Some (''x'', replicate 10 (Fn 0))]\<rparr>))) =
     [Warning ''x'' 10 10]"
  using on_warns_beyond_capacity [of "''x''" "Fn 1"
      "new_world\<lparr>listeners := [Some (''x'', replicate 10 (Fn 0))]\<rparr>"]
  by (simp add: new_world_def)

text \<open>
  The registration that brings a list from 9 to exactly 10 entries, with the threshold
  at 10, writes no warning.
\<close>

theorem tenth_listener_no_warning:
  "map_get (listeners (fst (on ''x'' (Fn 1)
      (new_world\<lparr>listeners := [Some (''x'', replicate 9 (Fn 0))]\<rparr>)))) ''x'' =
     Some (replicate 9 (Fn 0) @ [Fn 1]) \<and>
   length (replicate 9 (Fn 0) @ [Fn 1]) = 10 \<and>
   maxListeners (new_world\<lparr>listeners := [Some (''x'', replicate 9 (Fn 0))]\<rparr>) = 10 \<and>
   console (fst (on ''x'' (Fn 1)
      (new_world\<lparr>listeners := [Some (''x'', replicate 9 (Fn 0))]\<rparr>))) = []"
  by (simp add: on_appends on_console new_world_def)

lemma listenerCount_named:
  "P \<noteq> [] \<Longrightarrow>
   listenerCount (Some P) w =
     length (case map_get (listeners w) P of Some ls \<Rightarrow> ls | None \<Rightarrow> [])"
  by (simp add: listenerCount_def)

lemma listenerCount_all: "listenerCount None w = total_count (listeners w)"
  by (simp add: listenerCount_def)

text \<open>
  Claim C7 at the empty string: with one listener under the empty pattern and one
  under the pattern \<open>a\<close>, \<open>listenerCount\<close> of the empty string is 2, the sum over all
  patterns, and not the length 1 of the list of the empty pattern.
\<close>

theorem listenerCount_empty_string_counts_all:
  "map_get (listeners (fst (on ''a'' (Fn 1) (fst (on '''' (Fn 0) new_world))))) '''' = Some [Fn 0] \<and>
   listenerCount (Some '''') (fst (on ''a'' (Fn 1) (fst (on '''' (Fn 0) new_world)))) = 2"
  by (simp add: listenerCount_def on_def new_world_def map_has_def)

section \<open>Dispatch\<close>

text \<open>
  Claim C1 where the only matching listener throws: the listener is called (the call is
  in \<open>calls\<close>), its error is reported, and \<open>emit\<close> returns false.
\<close>

theorem emit_false_when_only_listener_throws:
  "emit always_throws 3 ''x'' [Obj 5] (fst (on ''x'' (Fn 0) new_world)) =
     Some (False,
       \<lparr>listeners = [Some (''x'', [Fn 0])], maxListeners = 10, next_ref = 0,
        console = [ListenerError ''x'' (Thrown 7)], calls = [(0, [Obj 5])],
        raised = [Thrown 7]\<rparr>)"
  by (simp add: emit_def on_def new_world_def map_has_def emit_from_Suc numeral_3_eq_3 matches_def
      always_throws_def)

section \<open>Properties of the rate limiters\<close>







text \<open>
  Claim C5, as amended. Nothing is rejected. \<open>on\<close> appends a value that is not
  callable like any other, and when it is called later the call throws a \<open>TypeError\<close>.
  \<open>throttle\<close> and \<open>debounce\<close> return their wrapper for every interval; with an
  interval that is not positive a throttled call executes a callable \<open>fn\<close> at once,
  and a debounced call sets a timeout that is due at once.
\<close>

theorem no_argument_validation:
  "(\<not> callable callback \<longrightarrow>
      map_get (listeners (fst (on event callback w))) event = Some (listeners_of w event @ [callback]) \<and>
      call prog (Suc n) callback args (fst (on event callback w)) =
        Some (Some TypeError,
          (fst (on event callback w))
            \<lparr>raised := raised (fst (on event callback w)) @ [TypeError]\<rparr>)) \<and>
   throttle f lim = \<lparr>fn = f, limit = lim, lastCall = 0, timer = None, applied = []\<rparr> \<and>
   (callable f \<and> lim \<le> 0 \<and> 0 \<le> now \<longrightarrow>
      throttled_call now args (throttle f lim) =
        \<lparr>fn = f, limit = lim, lastCall = now, timer = None, applied = [(now, args)]\<rparr>) \<and>
   debounce f delay = \<lparr>d_fn = f, d_delay = delay, d_timer = None, d_applied = []\<rparr> \<and>
   (delay \<le> 0 \<longrightarrow>
      debounced_call now args (debounce f delay) =
        \<lparr>d_fn = f, d_delay = delay, d_timer = Some (now, args), d_applied = []\<rparr>)"
proof -
  have "call prog (Suc n) callback args w' =
      Some (Some TypeError, w'\<lparr>raised := raised w' @ [TypeError]\<rparr>)"
    if "\<not> callable callback" for w'
    using that by (cases callback) simp_all
  then show ?thesis
    by (auto simp: on_appends listeners_of_def throttle_def throttled_call_def Let_def
        debounce_def debounced_call_def timeout_delay_def)
qed

theorem no_argument_validation_witness:
  "\<not> callable (Obj 0) \<and>
   map_get (listeners (fst (on ''x'' (Obj 0) new_world))) ''x'' = Some [Obj 0] \<and>
   call always_throws (Suc 0) (Obj 0) [] (fst (on ''x'' (Obj 0) new_world)) =
     Some (Some TypeError,
       (fst (on ''x'' (Obj 0) new_world))
         \<lparr>raised := raised (fst (on ''x'' (Obj 0) new_world)) @ [TypeError]\<rparr>) \<and>
   (-5 :: int) \<le> 0 \<and> (0 :: int) \<le> 1000 \<and>
   throttled_call 1000 [] (throttle (Fn 0) (-5)) =
     \<lparr>fn = Fn 0, limit = -5, lastCall = 1000, timer = None, applied = [(1000, [])]\<rparr> \<and>
   debounced_call 1000 [] (debounce (Fn 0) (-5)) =
     \<lparr>d_fn = Fn 0, d_delay = -5, d_timer = Some (1000, []), d_applied = []\<rparr>"
proof -
  have l: "listeners_of new_world ''x'' = []"
    by (simp add: listeners_of_def new_world_def)
  have a: "\<not> callable (Obj 0)" "callable (Fn 0)" "(-5 :: int) \<le> 0" "(0 :: int) \<le> 1000"
    by simp_all
  from no_argument_validation
    [of "Obj 0" "''x''" new_world always_throws 0 "[]" "Fn 0" "-5" 1000 "-5"] a
  show ?thesis
    unfolding l append_Nil by blast
qed

text \<open>
  Registering the non-callable value \<open>Obj 0\<close> changes the registry and writes
  nothing; \<open>throttle\<close> with the interval -5 and \<open>debounce\<close> with the interval 0
  return wrappers that work.
\<close>

theorem invalid_arguments_accepted:
  "map_get (listeners (fst (on ''x'' (Obj 0) new_world))) ''x'' = Some [Obj 0] \<and>
   map_get (listeners new_world) ''x'' = None \<and>
   console (fst (on ''x'' (Obj 0) new_world)) = [] \<and>
   throttle (Fn 0) (-5) = \<lparr>fn = Fn 0, limit = -5, lastCall = 0, timer = None, applied = []\<rparr> \<and>
   applied (throttled_call 1000 [] (throttle (Fn 0) (-5))) = [(1000, [])] \<and>
   debounce (Fn 0) 0 = \<lparr>d_fn = Fn 0, d_delay = 0, d_timer = None, d_applied = []\<rparr> \<and>
   d_timer (debounced_call 1000 [] (debounce (Fn 0) 0)) = Some (1000, [])"
  by (simp add: on_appends on_console new_world_def throttle_def throttled_call_def Let_def
      debounce_def debounced_call_def timeout_delay_def)

section \<open>Unsubscribing\<close>

lemma map_get_None_iff: "map_get m k = None \<longleftrightarrow> k \<notin> set (live_keys m)"
  by (induction m k rule: map_get.induct) auto

lemma map_delete_absent: "map_get m k = None \<Longrightarrow> map_delete m k = m"
  by (induction m k rule: map_delete.induct) (auto split: if_splits)

lemma map_get_delete_same:
  "distinct (live_keys m) \<Longrightarrow> map_get (map_delete m k) k = None"
  by (induction m k rule: map_delete.induct) (auto simp: map_get_None_iff)

lemma map_put_present: "map_get m k = Some v \<Longrightarrow> map_put m k v = m"
  by (induction m k v rule: map_put.induct) (auto split: if_splits)

lemma findIndex_Some:
  "findIndex cb ls = Inr (Some i) \<Longrightarrow>
   i < length ls \<and> hits cb (take i ls) = [] \<and> hits cb [ls ! i] = [ls ! i]"
proof (induction ls arbitrary: i)
  case Nil
  then show ?case by simp
next
  case (Cons f fs)
  show ?case
  proof (cases "f = cb \<or> original f = Inr cb")
    case True
    with Cons.prems have "i = 0"
      by (auto split: sum.splits if_splits)
    with True show ?thesis by (auto simp: hits_def)
  next
    case False
    with Cons.prems obtain j where j: "findIndex cb fs = Inr (Some j)" "i = Suc j"
      by (auto split: sum.splits if_splits option.splits)
    from Cons.IH [OF j(1)] False j(2) show ?thesis
      by (auto simp: hits_def)
  qed
qed

lemma findIndex_None: "findIndex cb ls = Inr None \<Longrightarrow> hits cb ls = []"
  by (induction ls) (auto simp: hits_def split: sum.splits if_splits option.splits)

lemma findIndex_no_hits:
  "hits cb ls = [] \<Longrightarrow> findIndex cb ls = Inr None \<or> (\<exists>e. findIndex cb ls = Inl e)"
  by (induction ls) (auto simp: hits_def split: sum.splits if_splits option.splits)

lemma hits_append [simp]: "hits cb (xs @ ys) = hits cb xs @ hits cb ys"
  by (simp add: hits_def)

lemma hits_after_splice:
  assumes "findIndex cb ls = Inr (Some i)" and "length (hits cb ls) \<le> 1"
  shows "hits cb (take i ls @ drop (Suc i) ls) = []"
proof -
  from findIndex_Some [OF assms(1)]
  have i: "i < length ls" and before: "hits cb (take i ls) = []"
    and at: "hits cb [ls ! i] = [ls ! i]"
    by simp_all
  from i have "ls = take i ls @ [ls ! i] @ drop (Suc i) ls"
    by (simp add: id_take_nth_drop)
  then have "hits cb ls = hits cb (take i ls) @ hits cb [ls ! i] @ hits cb (drop (Suc i) ls)"
    by (metis hits_append)
  with before at assms(2) have "hits cb (drop (Suc i) ls) = []"
    by simp
  with before show ?thesis by simp
qed

text \<open>
  Calling \<open>off\<close> a second time changes nothing more when at most one entry of the
  list answers to the callback.
\<close>

lemma off_twice:
  assumes d: "distinct (live_keys (listeners w))"
    and h: "cb = Undefined \<or> length (hits cb (listeners_of w P)) \<le> 1"
  shows "after_token (P, cb) (after_token (P, cb) w) = after_token (P, cb) w"
proof (cases "cb = Undefined")
  case True
  with d show ?thesis
    by (simp add: after_token_def call_token_def off_def map_delete_absent map_get_delete_same)
next
  case cb: False
  show ?thesis
  proof (cases "map_get (listeners w) P")
    case None
    with cb show ?thesis
      by (simp add: after_token_def call_token_def off_def)
  next
    case (Some ls)
    then have lo: "listeners_of w P = ls" by (simp add: listeners_of_def)
    show ?thesis
    proof (cases "findIndex cb ls")
      case (Inl e)
      with cb Some show ?thesis
        by (simp add: after_token_def call_token_def off_def)
    next
      case (Inr idx)
      define ls' where "ls' = (case idx of None \<Rightarrow> ls | Some i \<Rightarrow> take i ls @ drop (Suc i) ls)"
      have nohit: "hits cb ls' = []"
      proof (cases idx)
        case None
        with Inr show ?thesis by (simp add: ls'_def findIndex_None)
      next
        case (Some i)
        with Inr h cb lo hits_after_splice [of cb ls i] show ?thesis by (simp add: ls'_def)
      qed
      show ?thesis
      proof (cases "ls' = []")
        case True
        have first: "after_token (P, cb) w = w\<lparr>listeners := map_delete (listeners w) P\<rparr>"
          using cb Some Inr True
          by (simp add: after_token_def call_token_def off_def ls'_def [symmetric])
        show ?thesis
          unfolding first using cb d
          by (simp add: after_token_def call_token_def off_def map_get_delete_same)
      next
        case False
        have first: "after_token (P, cb) w = w\<lparr>listeners := map_put (listeners w) P ls'\<rparr>"
          using cb Some Inr False
          by (simp add: after_token_def call_token_def off_def ls'_def [symmetric])
        from findIndex_no_hits [OF nohit] show ?thesis
          unfolding first using cb False
          by (auto simp: after_token_def call_token_def off_def)
      qed
    qed
  qed
qed

lemma on_token: "snd (on event callback w) = (event, callback)"
  by (simp add: on_def Let_def)

lemma live_keys_put:
  "live_keys (map_put m k v) = (if k \<in> set (live_keys m) then live_keys m else live_keys m @ [k])"
  by (induction m k v rule: map_put.induct) auto

lemma on_live_keys:
  "distinct (live_keys (listeners w)) \<Longrightarrow> distinct (live_keys (listeners (fst (on event callback w))))"
  by (auto simp: on_def Let_def live_keys_put map_has_def map_get_None_iff)

lemma on_listeners_of:
  "listeners_of (fst (on event callback w)) event = listeners_of w event @ [callback]"
  by (simp add: listeners_of_def on_appends)

lemma once_unfold:
  "once event callback w =
     on event (Wrapper (next_ref w) event callback) (w\<lparr>next_ref := Suc (next_ref w)\<rparr>)"
  by (simp add: once_def Let_def)

lemma hits_self: "hits cb [cb] = [cb]"
  by (simp add: hits_def)

text \<open>No entry answers to a wrapper whose number is not in use yet.\<close>

lemma fresh_wrapper_no_hits:
  "list_all (refs_below n) ls \<Longrightarrow> hits (Wrapper n P cb) ls = []"
proof (induction ls)
  case Nil
  then show ?case by (simp add: hits_def)
next
  case (Cons f ls)
  then have "f \<noteq> Wrapper n P cb \<and> original f \<noteq> Inr (Wrapper n P cb)"
    by (cases f) auto
  with Cons show ?case by (simp add: hits_def)
qed

text \<open>
  The worlds that the operations build are well formed: the new world is, and \<open>on\<close>,
  \<open>once\<close>, \<open>off\<close> and \<open>emit\<close> keep a world so, whatever the listeners do, as long as
  the values that are registered hold no wrapper with a number that is still to come.
\<close>

lemma refs_below_mono: "refs_below n v \<Longrightarrow> n \<le> n' \<Longrightarrow> refs_below n' v"
  by (induction v) auto

lemma all_listeners_put:
  "set (all_listeners (map_put m k v)) \<subseteq> set (all_listeners m) \<union> set v"
  by (induction m k v rule: map_put.induct) auto

lemma all_listeners_delete: "set (all_listeners (map_delete m k)) \<subseteq> set (all_listeners m)"
  by (induction m k rule: map_delete.induct) auto

lemma all_listeners_get: "map_get m k = Some ls \<Longrightarrow> set ls \<subseteq> set (all_listeners m)"
  by (induction m k rule: map_get.induct) (auto split: if_splits)

lemma listeners_of_subset: "set (listeners_of w event) \<subseteq> set (all_listeners (listeners w))"
proof (cases "map_get (listeners w) event")
  case None
  then show ?thesis by (simp add: listeners_of_def)
next
  case (Some ls)
  with all_listeners_get [OF Some] show ?thesis by (simp add: listeners_of_def)
qed

lemma live_keys_delete: "distinct (live_keys m) \<Longrightarrow> distinct (live_keys (map_delete m k))"
proof (induction m k rule: map_delete.induct)
  case (1 k)
  then show ?case by simp
next
  case (2 es k)
  then show ?case by simp
next
  case (3 k' v es k)
  have "set (live_keys (map_delete es k)) \<subseteq> set (live_keys es)" for es :: "('a, 'b) jsmap"
    by (induction es k rule: map_delete.induct) auto
  with 3 show ?case by auto
qed

lemma well_formed_new_world: "well_formed new_world"
  by (simp add: well_formed_def new_world_def)

lemma well_formed_log [simp]:
  "well_formed (w\<lparr>console := x\<rparr>) = well_formed w"
  "well_formed (w\<lparr>calls := y\<rparr>) = well_formed w"
  "well_formed (w\<lparr>raised := z\<rparr>) = well_formed w"
  by (simp_all add: well_formed_def)

lemma on_well_formed:
  assumes "well_formed w" and "refs_below (next_ref w) callback"
  shows "well_formed (fst (on event callback w))"
proof -
  let ?ls = "listeners_of w event"
  have l: "listeners (fst (on event callback w)) = map_put (listeners w) event (?ls @ [callback])"
    and n: "next_ref (fst (on event callback w)) = next_ref w"
    by (auto simp: on_def Let_def map_has_def listeners_of_def split: option.splits)
  have "set ?ls \<subseteq> set (all_listeners (listeners w))"
    by (rule listeners_of_subset)
  with all_listeners_put [of "listeners w" event "?ls @ [callback]"]
  have "set (all_listeners (map_put (listeners w) event (?ls @ [callback]))) \<subseteq>
      insert callback (set (all_listeners (listeners w)))"
    by auto
  with assms show ?thesis
    unfolding well_formed_def l n
    by (auto simp: list_all_iff live_keys_put)
qed

lemma once_well_formed:
  assumes "well_formed w" and "refs_below (next_ref w) callback"
  shows "well_formed (fst (once event callback w))"
proof -
  let ?w = "w\<lparr>next_ref := Suc (next_ref w)\<rparr>"
  have "well_formed ?w"
    using assms(1) by (auto simp: well_formed_def list_all_iff intro: refs_below_mono)
  moreover have "refs_below (next_ref ?w) (Wrapper (next_ref w) event callback)"
    using assms(2) by (auto intro: refs_below_mono)
  ultimately show ?thesis
    unfolding once_unfold by (rule on_well_formed)
qed

lemma off_well_formed:
  assumes "well_formed w" and "off event callback w = Inr w'"
  shows "well_formed w'"
proof -
  have del: "well_formed (w\<lparr>listeners := map_delete (listeners w) event\<rparr>)"
    using assms(1) all_listeners_delete [of "listeners w" event]
    by (auto simp: well_formed_def list_all_iff live_keys_delete)
  have put: "well_formed (w\<lparr>listeners := map_put (listeners w) event ls'\<rparr>)"
    if "map_get (listeners w) event = Some ls" "set ls' \<subseteq> set ls" for ls ls'
    using assms(1) that all_listeners_put [of "listeners w" event ls']
      all_listeners_get [OF that(1)] map_get_None_iff [of "listeners w" event]
    by (auto simp: well_formed_def list_all_iff live_keys_put)
  have sub: "set (take i ls @ drop (Suc i) ls) \<subseteq> set ls" for i and ls :: "jsval list"
    by (auto dest: in_set_takeD in_set_dropD)
  from assms(2) show ?thesis
    using assms(1) del put sub
    by (auto simp: off_def Let_def split: if_splits option.splits sum.splits)
qed

lemma exec_well_formed:
  assumes E: "\<And>i event args called w b w'.
      emit_from prog n i event args called w = Some (b, w') \<Longrightarrow> well_formed w \<Longrightarrow>
      well_formed w'"
  shows "list_all registers_no_wrapper body \<Longrightarrow> exec prog n body w = Some (r, w') \<Longrightarrow>
     well_formed w \<Longrightarrow> well_formed w'"
proof (induction body arbitrary: w)
  case Nil
  then show ?case by auto
next
  case (Cons s body)
  then have rest: "list_all registers_no_wrapper body" by simp
  show ?case
  proof (cases s)
    case (Throw x)
    with Cons.prems show ?thesis by auto
  next
    case (Emit event args)
    with Cons.prems obtain b v where
      e: "emit_from prog n 0 event args False w = Some (b, v)" and
      x: "exec prog n body v = Some (r, w')"
      by (auto split: option.splits)
    from E [OF e Cons.prems(3)] show ?thesis
      by (rule Cons.IH [OF rest x])
  next
    case (On event callback)
    with Cons.prems have x: "exec prog n body (fst (on event callback w)) = Some (r, w')"
      and "refs_below 0 callback"
      by simp_all
    then have "refs_below (next_ref w) callback"
      by (auto intro: refs_below_mono)
    with Cons.prems(3) have "well_formed (fst (on event callback w))"
      by (rule on_well_formed)
    then show ?thesis
      by (rule Cons.IH [OF rest x])
  next
    case (Once event callback)
    with Cons.prems have x: "exec prog n body (fst (once event callback w)) = Some (r, w')"
      and "refs_below 0 callback"
      by simp_all
    then have "refs_below (next_ref w) callback"
      by (auto intro: refs_below_mono)
    with Cons.prems(3) have "well_formed (fst (once event callback w))"
      by (rule once_well_formed)
    then show ?thesis
      by (rule Cons.IH [OF rest x])
  next
    case (Off event callback)
    show ?thesis
    proof (cases "off event callback w")
      case (Inl e)
      with Cons.prems Off show ?thesis by auto
    next
      case (Inr v)
      with Cons.prems Off have x: "exec prog n body v = Some (r, w')" by simp
      from Cons.prems(3) Inr have "well_formed v" by (rule off_well_formed)
      then show ?thesis
        by (rule Cons.IH [OF rest x])
    qed
  qed
qed

lemma dispatch_well_formed:
  assumes C: "\<And>v args w r w'. call prog n v args w = Some (r, w') \<Longrightarrow> well_formed w \<Longrightarrow>
      well_formed w'"
  shows "dispatch prog n ls event args called w = Some (b, w') \<Longrightarrow> well_formed w \<Longrightarrow>
     well_formed w'"
proof (induction ls arbitrary: called w)
  case Nil
  then show ?case by auto
next
  case (Cons l ls)
  from Cons.prems obtain r v where c: "call prog n l args w = Some (r, v)"
    by (auto split: option.splits)
  from C [OF c Cons.prems(2)] have v: "well_formed v" .
  show ?case
  proof (cases r)
    case None
    with Cons.prems c have "dispatch prog n ls event args True v = Some (b, w')"
      by simp
    from this v show ?thesis by (rule Cons.IH)
  next
    case (Some err)
    with Cons.prems c
    have "dispatch prog n ls event args called
        (v\<lparr>console := console v @ [ListenerError event err]\<rparr>) = Some (b, w')"
      by simp
    moreover from v have "well_formed (v\<lparr>console := console v @ [ListenerError event err]\<rparr>)"
      by simp
    ultimately show ?thesis by (rule Cons.IH)
  qed
qed

lemma call_emit_well_formed:
  assumes "wrapper_free prog"
  shows "(\<forall>v args w r w'. call prog n v args w = Some (r, w') \<longrightarrow> well_formed w \<longrightarrow>
      well_formed w') \<and>
   (\<forall>i event args called w b w'.
      emit_from prog n i event args called w = Some (b, w') \<longrightarrow> well_formed w \<longrightarrow>
      well_formed w')"
proof (induction n)
  case 0
  show ?case by simp
next
  case (Suc n)
  then have C: "\<And>v args w r w'. call prog n v args w = Some (r, w') \<Longrightarrow> well_formed w \<Longrightarrow>
      well_formed w'"
    and E: "\<And>i event args called w b w'.
      emit_from prog n i event args called w = Some (b, w') \<Longrightarrow> well_formed w \<Longrightarrow>
      well_formed w'"
    by blast+
  have X: "well_formed w'"
    if "exec prog n (prog k) w = Some (r, w')" "well_formed w" for k w r w'
  proof -
    from assms have "list_all registers_no_wrapper (prog k)" by (simp add: wrapper_free_def)
    with E show ?thesis using that by (rule exec_well_formed)
  qed
  have D: "well_formed w'"
    if "dispatch prog n ls event args called w = Some (b, w')" "well_formed w"
    for ls event args called w b w'
    using C that by (rule dispatch_well_formed)
  have call: "well_formed w'"
    if c: "call prog (Suc n) v args w = Some (r, w')" and wf: "well_formed w"
    for v args w r w'
  proof (cases v)
    case Undefined
    with c wf show ?thesis by auto
  next
    case (Obj k)
    with c wf show ?thesis by auto
  next
    case (Fn k)
    with c have "exec prog n (prog k) (w\<lparr>calls := calls w @ [(k, args)]\<rparr>) = Some (r, w')"
      by simp
    moreover from wf have "well_formed (w\<lparr>calls := calls w @ [(k, args)]\<rparr>)" by simp
    ultimately show ?thesis by (rule X)
  next
    case (Wrapper x event callback)
    show ?thesis
    proof (cases "off event v w")
      case (Inl e)
      with c wf Wrapper show ?thesis by auto
    next
      case (Inr u)
      with c Wrapper have "call prog n callback args u = Some (r, w')" by simp
      moreover from wf Inr have "well_formed u" by (rule off_well_formed)
      ultimately show ?thesis by (rule C)
    qed
  qed
  have emit: "well_formed w'"
    if e: "emit_from prog (Suc n) i event args called w = Some (b, w')" and wf: "well_formed w"
    for i event args called w b w'
  proof (cases "i < length (listeners w)")
    case False
    with e wf show ?thesis by (simp add: emit_from_Suc)
  next
    case i: True
    show ?thesis
    proof (cases "listeners w ! i")
      case None
      with e i have "emit_from prog n (Suc i) event args called w = Some (b, w')"
        by (simp add: emit_from_Suc)
      from this wf show ?thesis by (rule E)
    next
      case (Some entry)
      obtain pattern ls where entry: "entry = (pattern, ls)" by (cases entry)
      show ?thesis
      proof (cases "matches pattern event")
        case False
        with e i Some entry have "emit_from prog n (Suc i) event args called w = Some (b, w')"
          by (simp add: emit_from_Suc)
        from this wf show ?thesis by (rule E)
      next
        case True
        with e i Some entry obtain c v where
          d: "dispatch prog n ls event args called w = Some (c, v)" and
          r: "emit_from prog n (Suc i) event args c v = Some (b, w')"
          by (auto simp: emit_from_Suc split: option.splits)
        from r D [OF d wf] show ?thesis by (rule E)
      qed
    qed
  qed
  from call emit show ?case by blast
qed

lemma emit_well_formed:
  assumes "wrapper_free prog" and "well_formed w" and "emit prog n event args w = Some (b, w')"
  shows "well_formed w'"
proof -
  from call_emit_well_formed [OF assms(1), of n]
  have "well_formed w'"
    if "emit_from prog n 0 event args False w = Some (b, w')" "well_formed w"
    using that by blast
  with assms(2,3) show ?thesis by (simp add: emit_def)
qed

text \<open>
  Claim C8, as amended. In a well-formed world, let no entry of the list of \<open>P\<close>
  answer to the callback \<open>cb\<close> that is being registered: none is the callback, none is
  a wrapper of it (for the callback \<open>undefined\<close>, whose token deletes the whole key,
  nothing is asked). Then calling the token of \<open>on\<close> twice leaves the world that
  calling it once leaves. For the token of \<open>once\<close> nothing is asked at all: the
  wrapper that \<open>once\<close> registers is new, no entry answers to it, and calling its
  token twice leaves the world that calling it once leaves, also where the callback is
  registered already.
\<close>

theorem token_idempotent_without_duplicates:
  assumes "well_formed w"
  shows "(cb = Undefined \<or> hits cb (listeners_of w P) = [] \<longrightarrow>
           after_token (snd (on P cb w)) (after_token (snd (on P cb w)) (fst (on P cb w))) =
             after_token (snd (on P cb w)) (fst (on P cb w))) \<and>
         after_token (snd (once Q c w)) (after_token (snd (once Q c w)) (fst (once Q c w))) =
           after_token (snd (once Q c w)) (fst (once Q c w))"
proof (intro conjI impI)
  from assms have keys: "distinct (live_keys (listeners w))"
    by (simp add: well_formed_def)
  {
    assume "cb = Undefined \<or> hits cb (listeners_of w P) = []"
    then have "cb = Undefined \<or> length (hits cb (listeners_of (fst (on P cb w)) P)) \<le> 1"
      by (auto simp: on_listeners_of hits_self)
    with on_live_keys [OF keys]
    show "after_token (snd (on P cb w)) (after_token (snd (on P cb w)) (fst (on P cb w))) =
             after_token (snd (on P cb w)) (fst (on P cb w))"
      unfolding on_token by (rule off_twice)
  }
  let ?w = "w\<lparr>next_ref := Suc (next_ref w)\<rparr>"
  let ?wr = "Wrapper (next_ref w) Q c"
  have lo: "listeners_of ?w Q = listeners_of w Q"
    by (simp add: listeners_of_def)
  have "set (listeners_of w Q) \<subseteq> set (all_listeners (listeners w))"
    by (rule listeners_of_subset)
  with assms have "list_all (refs_below (next_ref w)) (listeners_of w Q)"
    by (auto simp: well_formed_def list_all_iff)
  then have "hits ?wr (listeners_of w Q) = []"
    by (rule fresh_wrapper_no_hits)
  then have "?wr = Undefined \<or> length (hits ?wr (listeners_of (fst (on Q ?wr ?w)) Q)) \<le> 1"
    by (simp add: on_listeners_of hits_self lo)
  moreover have "distinct (live_keys (listeners (fst (on Q ?wr ?w))))"
    using keys by (intro on_live_keys) simp
  ultimately
  show "after_token (snd (once Q c w)) (after_token (snd (once Q c w)) (fst (once Q c w))) =
           after_token (snd (once Q c w)) (fst (once Q c w))"
    unfolding once_unfold on_token by (intro off_twice)
qed

theorem token_idempotent_without_duplicates_witness:
  "well_formed (fst (on ''x'' (Fn 1) new_world)) \<and>
   hits (Fn 0) (listeners_of (fst (on ''x'' (Fn 1) new_world)) ''x'') = [] \<and>
   after_token (snd (on ''x'' (Fn 0) (fst (on ''x'' (Fn 1) new_world))))
     (fst (on ''x'' (Fn 0) (fst (on ''x'' (Fn 1) new_world)))) =
     fst (on ''x'' (Fn 1) new_world) \<and>
   after_token (snd (on ''x'' (Fn 0) (fst (on ''x'' (Fn 1) new_world))))
     (after_token (snd (on ''x'' (Fn 0) (fst (on ''x'' (Fn 1) new_world))))
        (fst (on ''x'' (Fn 0) (fst (on ''x'' (Fn 1) new_world))))) =
     fst (on ''x'' (Fn 1) new_world) \<and>
   after_token (snd (once ''x'' (Fn 1) (fst (on ''x'' (Fn 1) new_world))))
     (fst (once ''x'' (Fn 1) (fst (on ''x'' (Fn 1) new_world)))) =
     (fst (on ''x'' (Fn 1) new_world))\<lparr>next_ref := 1\<rparr> \<and>
   after_token (snd (once ''x'' (Fn 1) (fst (on ''x'' (Fn 1) new_world))))
     (after_token (snd (once ''x'' (Fn 1) (fst (on ''x'' (Fn 1) new_world))))
        (fst (once ''x'' (Fn 1) (fst (on ''x'' (Fn 1) new_world))))) =
     (fst (on ''x'' (Fn 1) new_world))\<lparr>next_ref := 1\<rparr>"
proof -
  let ?w = "fst (on ''x'' (Fn 1) new_world)"
  have w: "?w = \<lparr>listeners = [Some (''x'', [Fn 1])], maxListeners = 10, next_ref = 0,
      console = [], calls = [], raised = []\<rparr>"
    by (simp add: on_def new_world_def map_has_def)
  have h1: "well_formed ?w"
    using well_formed_new_world by (rule on_well_formed) simp
  have h2: "hits (Fn 0) (listeners_of ?w ''x'') = []"
    unfolding w by (simp add: hits_def listeners_of_def)
  have first: "after_token (snd (on ''x'' (Fn 0) ?w)) (fst (on ''x'' (Fn 0) ?w)) = ?w"
    unfolding w
    by (simp add: on_def map_has_def after_token_def call_token_def off_def)
  have first_once: "after_token (snd (once ''x'' (Fn 1) ?w)) (fst (once ''x'' (Fn 1) ?w)) =
      ?w\<lparr>next_ref := 1\<rparr>"
    unfolding w
    by (simp add: once_def Let_def on_def map_has_def after_token_def call_token_def off_def)
  from token_idempotent_without_duplicates [OF h1, of "Fn 0" "''x''" "''x''" "Fn 1"] h2
  have "after_token (snd (on ''x'' (Fn 0) ?w))
      (after_token (snd (on ''x'' (Fn 0) ?w)) (fst (on ''x'' (Fn 0) ?w))) =
      after_token (snd (on ''x'' (Fn 0) ?w)) (fst (on ''x'' (Fn 0) ?w))"
    and "after_token (snd (once ''x'' (Fn 1) ?w))
      (after_token (snd (once ''x'' (Fn 1) ?w)) (fst (once ''x'' (Fn 1) ?w))) =
      after_token (snd (once ''x'' (Fn 1) ?w)) (fst (once ''x'' (Fn 1) ?w))"
    by blast+
  with first first_once h1 h2 show ?thesis
    by simp
qed

text \<open>
  With the same function registered twice under \<open>x\<close>, the first call of the token
  leaves one registration and the second call removes that one too: the count goes from
  1 to 0.
\<close>

theorem token_twice_removes_second_registration:
  "call_token (snd (on ''x'' (Fn 0) (fst (on ''x'' (Fn 0) new_world))))
     (fst (on ''x'' (Fn 0) (fst (on ''x'' (Fn 0) new_world)))) =
     Inr \<lparr>listeners = [Some (''x'', [Fn 0])], maxListeners = 10, next_ref = 0,
          console = [], calls = [], raised = []\<rparr> \<and>
   call_token (snd (on ''x'' (Fn 0) (fst (on ''x'' (Fn 0) new_world))))
     \<lparr>listeners = [Some (''x'', [Fn 0])], maxListeners = 10, next_ref = 0,
      console = [], calls = [], raised = []\<rparr> =
     Inr \<lparr>listeners = [None], maxListeners = 10, next_ref = 0, console = [], calls = [], raised = []\<rparr> \<and>
   listenerCount (Some ''x'')
     \<lparr>listeners = [Some (''x'', [Fn 0])], maxListeners = 10, next_ref = 0,
      console = [], calls = [], raised = []\<rparr> = 1 \<and>
   listenerCount (Some ''x'')
     \<lparr>listeners = [None], maxListeners = 10, next_ref = 0, console = [], calls = [], raised = []\<rparr> = 0"
  by (simp add: on_def new_world_def map_has_def call_token_def off_def listenerCount_def)

section \<open>Dispatch to quiet listeners\<close>


lemma reports_of_append [simp]:
  "reports_of prog event (xs @ ys) = reports_of prog event xs @ reports_of prog event ys"
  by (induction xs) (simp_all split: option.splits)

lemma errors_of_append [simp]: "errors_of prog (xs @ ys) = errors_of prog xs @ errors_of prog ys"
  by (induction xs) (simp_all split: option.splits)

lemma after_quiet_Nil [simp]: "after_quiet prog event args [] w = w"
  by (simp add: after_quiet_def)

lemma after_quiet_fields [simp]:
  "listeners (after_quiet prog event args ls w) = listeners w"
  "maxListeners (after_quiet prog event args ls w) = maxListeners w"
  "next_ref (after_quiet prog event args ls w) = next_ref w"
  "console (after_quiet prog event args ls w) = console w @ reports_of prog event ls"
  "calls (after_quiet prog event args ls w) = calls w @ calls_of args ls"
  "raised (after_quiet prog event args ls w) = raised w @ errors_of prog ls"
  by (simp_all add: after_quiet_def)








section \<open>Throwing changes neither the calls nor the registry\<close>

lemma alike_refl [simp]: "alike w w"
  by (simp add: alike_def)

lemma alike_console [simp]:
  "alike (w\<lparr>console := x\<rparr>) w' = alike w w'" "alike w (w'\<lparr>console := y\<rparr>) = alike w w'"
  by (simp_all add: alike_def)

lemma alike_raised [simp]:
  "alike (w\<lparr>raised := x\<rparr>) w' = alike w w'" "alike w (w'\<lparr>raised := y\<rparr>) = alike w w'"
  by (simp_all add: alike_def)





lemma alike_result_None [simp]: "alike_result None y \<longleftrightarrow> y = None"
  by (cases y) simp_all






section \<open>Every error is reported\<close>

lemma reported_append [simp]: "reported (xs @ ys) = reported xs @ reported ys"
  by (induction xs rule: reported.induct) simp_all

lemma settled_refl [simp]: "settled w [] w"
  by (simp add: settled_def)


lemma settled_raise [simp]: "settled w [e] (w\<lparr>raised := raised w @ [e]\<rparr>)"
  by (simp add: settled_def)










section \<open>Every matching function is called\<close>

lemma fns_append [simp]: "fns (xs @ ys) = fns xs @ fns ys"
  by (induction xs rule: fns.induct) simp_all


lemma kept_refl [simp]: "kept m m"
proof (induction m)
  case Nil
  show ?case by simp
next
  case (Cons x m)
  then show ?case by (cases x) auto
qed











lemma served_refl [simp]: "served w [] w"
  by (simp add: served_def)








section \<open>Dispatch to tame listeners comes to an end\<close>

lemma map_delete_length [simp]: "length (map_delete m k) = length m"
  by (induction m k rule: map_delete.induct) simp_all





lemma shrunk_refl [simp]: "shrunk event w w"
  by (simp add: shrunk_def)


lemma shrunk_log [simp]:
  "shrunk event w (w'\<lparr>console := x\<rparr>) = shrunk event w w'"
  "shrunk event w (w'\<lparr>calls := y\<rparr>) = shrunk event w w'"
  "shrunk event w (w'\<lparr>raised := z\<rparr>) = shrunk event w w'"
  "shrunk event (w\<lparr>calls := y\<rparr>) w' = shrunk event w w'"
  "shrunk event (w\<lparr>console := x\<rparr>) w' = shrunk event w w'"
  by (simp_all add: shrunk_def)








section \<open>Errors of listeners\<close>



text \<open>
  The first and the second property are about an \<open>emit\<close> that returns. One that does
  not: a listener that emits its own event is called without end, for every fuel. In
  JavaScript such a run ends when the stack is used up, which the model leaves out.
\<close>

lemma emit_from_own_event_never_returns:
  "listeners w = [Some (''x'', [Fn 1])] \<Longrightarrow> emit_from demo n 0 ''x'' args called w = None"
proof (induction n arbitrary: w args called rule: less_induct)
  case (less n)
  have m: "matches ''x'' ''x''"
    by (simp add: matches_def)
  show ?case
  proof (cases n)
    case 0
    then show ?thesis by simp
  next
    case n: (Suc n1)
    show ?thesis
    proof (cases n1)
      case 0
      with n less.prems m show ?thesis by (simp add: emit_from_Suc)
    next
      case (Suc n2)
      have "emit_from demo n2 0 ''x'' [] False (w\<lparr>calls := calls w @ [(1, args)]\<rparr>) = None"
        using less.prems n Suc by (intro less.IH) simp_all
      moreover have "demo 1 = [Emit ''x'' []]"
        by (simp add: demo_def)
      ultimately show ?thesis
        using n Suc less.prems m by (simp add: emit_from_Suc)
    qed
  qed
qed

lemma emit_own_event_never_returns:
  "emit demo n ''x'' [] (fst (on ''x'' (Fn 1) new_world)) = None"
  by (simp add: emit_def emit_from_own_event_never_returns on_def new_world_def map_has_def)

section \<open>One-time listeners\<close>

text \<open>
  A callback registered once that emits the same event from within itself: the wrapper
  has left the registry when the callback runs, so the inner \<open>emit\<close> finds nothing and
  the callback is called once; a second \<open>emit\<close> calls nothing and returns false.
\<close>

lemma once_callback_that_emits_runs_once:
  "emit demo 6 ''x'' [Obj 9] (fst (once ''x'' (Fn 1) new_world)) =
     Some (True,
       \<lparr>listeners = [None], maxListeners = 10, next_ref = 1, console = [],
        calls = [(1, [Obj 9])], raised = []\<rparr>)"
  "emit demo 6 ''x'' [Obj 9]
     \<lparr>listeners = [None], maxListeners = 10, next_ref = 1, console = [],
      calls = [(1, [Obj 9])], raised = []\<rparr> =
     Some (False,
       \<lparr>listeners = [None], maxListeners = 10, next_ref = 1, console = [],
        calls = [(1, [Obj 9])], raised = []\<rparr>)"
proof -
  have m: "matches ''x'' ''x''"
    by (simp add: matches_def)
  have w: "fst (once ''x'' (Fn 1) new_world) =
      \<lparr>listeners = [Some (''x'', [Wrapper 0 ''x'' (Fn 1)])],
       maxListeners = 10, next_ref = 1, console = [], calls = [], raised = []\<rparr>"
    by (simp add: once_def on_def new_world_def map_has_def Let_def)
  show "emit demo 6 ''x'' [Obj 9] (fst (once ''x'' (Fn 1) new_world)) =
     Some (True,
       \<lparr>listeners = [None], maxListeners = 10, next_ref = 1, console = [],
        calls = [(1, [Obj 9])], raised = []\<rparr>)"
    unfolding w by (simp add: emit_def emit_from_Suc eval_nat_numeral m off_def demo_def)
  show "emit demo 6 ''x'' [Obj 9]
     \<lparr>listeners = [None], maxListeners = 10, next_ref = 1, console = [],
      calls = [(1, [Obj 9])], raised = []\<rparr> =
     Some (False,
       \<lparr>listeners = [None], maxListeners = 10, next_ref = 1, console = [],
        calls = [(1, [Obj 9])], raised = []\<rparr>)"
    by (simp add: emit_def emit_from_Suc eval_nat_numeral)
qed

text \<open>
  Claim C4 where another listener emits the event before the wrapper has had its turn.
  Function 1 and function 2 are registered once under \<open>x\<close>, in this order; function 1
  emits \<open>x\<close> from within itself, function 2 returns at once. One \<open>emit\<close> of \<open>x\<close>
  calls function 2 twice: the inner \<open>emit\<close> calls its wrapper, which leaves the
  registry and calls function 2; the copy of the list that the outer \<open>emit\<close> took
  still holds the wrapper, which is called again, finds nothing to remove and calls
  function 2 a second time.
\<close>

theorem once_listener_called_twice_in_one_emit:
  "emit demo 6 ''x'' [] (fst (once ''x'' (Fn 2) (fst (once ''x'' (Fn 1) new_world)))) =
     Some (True,
       \<lparr>listeners = [None], maxListeners = 10, next_ref = 2, console = [],
        calls = [(1, []), (2, []), (2, [])], raised = []\<rparr>)"
proof -
  have m: "matches ''x'' ''x''"
    by (simp add: matches_def)
  have w: "fst (once ''x'' (Fn 2) (fst (once ''x'' (Fn 1) new_world))) =
      \<lparr>listeners = [Some (''x'', [Wrapper 0 ''x'' (Fn 1), Wrapper 1 ''x'' (Fn 2)])],
       maxListeners = 10, next_ref = 2, console = [], calls = [], raised = []\<rparr>"
    by (simp add: once_def on_def new_world_def map_has_def Let_def)
  show ?thesis
    unfolding w by (simp add: emit_def emit_from_Suc eval_nat_numeral m off_def demo_def)
qed

section \<open>The cases of section 8 of the specification\<close>

lemma matcher_table:
  "matches ''*'' ''a.b.c''" "matches ''a.*'' ''a.b''" "\<not> matches ''a.*'' ''a''"
  "\<not> matches ''a.*'' ''a.b.c''" "matches ''a.**'' ''a.b.c''" "matches ''a.**'' ''a''"
  "matches ''user.*'' ''user.created''" "\<not> matches ''user.*'' ''user.created.extra''"
  "matches ''**'' ''anything.at.all''" "\<not> matches ''a.b'' ''a''" "matches '''' ''''"
  "\<not> matches ''*.b'' ''a''" "matches ''*.b'' ''a.b''"
  by (simp_all add: matches_def matches_loop_unfold at_index_def)

lemma count_three_listeners_over_two_patterns:
  "listenerCount None new_world = 0"
  "listenerCount None (fst (on ''b'' (Fn 2) (fst (on ''a'' (Fn 1) (fst (on ''a'' (Fn 0) new_world)))))) = 3"
  "listenerCount (Some ''a'') (fst (on ''b'' (Fn 2) (fst (on ''a'' (Fn 1) (fst (on ''a'' (Fn 0) new_world)))))) = 2"
  "listenerCount (Some ''b'') (fst (on ''b'' (Fn 2) (fst (on ''a'' (Fn 1) (fst (on ''a'' (Fn 0) new_world)))))) = 1"
  "listenerCount (Some ''c'') (fst (on ''b'' (Fn 2) (fst (on ''a'' (Fn 1) (fst (on ''a'' (Fn 0) new_world)))))) = 0"
  by (simp_all add: listenerCount_def on_def new_world_def map_has_def)

end
